theory Spec2Isabelle
  imports Complex_Main "HOL-Library.Sublist"
begin

section \<open>Cells as object references\<close>

text \<open>
  A \<open>Cell\<close> of the TypeScript sources is a heap object that is compared by identity
  (\<open>===\<close>). It is modelled by its reference, a natural number; \<open>null\<close> is \<open>None\<close>.
\<close>

type_synonym cell = nat

section \<open>TerminalMixin.getOpposites\<close>

text \<open>
  The view is a collaborator that is not part of the mixin. It is taken as a record of
  what it reports: \<open>getState\<close> gives the cell state of an edge or \<open>null\<close>, a cell state
  answers \<open>getVisibleTerminal(source)\<close>, and the view itself answers
  \<open>getVisibleTerminal(edge, source)\<close> for an edge that has no state.
\<close>

record CellState =
  state_getVisibleTerminal :: "bool \<Rightarrow> cell option"

record GraphView =
  getState :: "cell \<Rightarrow> CellState option"
  view_getVisibleTerminal :: "cell \<Rightarrow> bool \<Rightarrow> cell option"

text \<open>
  \<open>Dictionary<Cell, boolean>\<close> is a lookup table keyed by the identity of a cell:
  \<open>get\<close> answers the stored value or nothing, \<open>put\<close> stores one.
\<close>

type_synonym dictionary = "cell \<rightharpoonup> bool"

definition dict_get :: "dictionary \<Rightarrow> cell \<Rightarrow> bool option" where
  "dict_get d k = d k"

definition dict_put :: "dictionary \<Rightarrow> cell \<Rightarrow> bool \<Rightarrow> dictionary" where
  "dict_put d k v = d(k \<mapsto> v)"

text \<open>JavaScript truthiness of the result of \<open>dict.get\<close>.\<close>

definition truthy :: "bool option \<Rightarrow> bool" where
  "truthy v = (case v of None \<Rightarrow> False | Some b \<Rightarrow> b)"

text \<open>The visible source or target of one edge, as lines 43 to 50 compute it.\<close>

definition visibleTerminal :: "GraphView \<Rightarrow> cell \<Rightarrow> bool \<Rightarrow> cell option" where
  "visibleTerminal view edge isSource =
     (case getState view edge of
        Some state \<Rightarrow> state_getVisibleTerminal state isSource
      | None \<Rightarrow> view_getVisibleTerminal view edge isSource)"

text \<open>
  One iteration of the loop body: the pair is the dictionary and the \<open>terminals\<close> array.
\<close>

definition getOpposites_body ::
  "GraphView \<Rightarrow> cell option \<Rightarrow> bool \<Rightarrow> bool \<Rightarrow> cell \<Rightarrow>
   dictionary \<times> cell list \<Rightarrow> dictionary \<times> cell list" where
  "getOpposites_body view terminal includeSources includeTargets edge acc =
     (let dict = fst acc; terminals = snd acc;
          source = visibleTerminal view edge True;
          target = visibleTerminal view edge False
      in if source = terminal \<and> target \<noteq> None \<and> target \<noteq> terminal \<and> includeTargets then
           (if \<not> truthy (dict_get dict (the target))
            then (dict_put dict (the target) True, terminals @ [the target])
            else (dict, terminals))
         else if target = terminal \<and> source \<noteq> None \<and> source \<noteq> terminal \<and> includeSources then
           (if \<not> truthy (dict_get dict (the source))
            then (dict_put dict (the source) True, terminals @ [the source])
            else (dict, terminals))
         else (dict, terminals))"

fun getOpposites_loop ::
  "GraphView \<Rightarrow> cell option \<Rightarrow> bool \<Rightarrow> bool \<Rightarrow> cell list \<Rightarrow>
   dictionary \<times> cell list \<Rightarrow> dictionary \<times> cell list" where
  "getOpposites_loop view terminal includeSources includeTargets [] acc = acc"
| "getOpposites_loop view terminal includeSources includeTargets (edge # edges) acc =
     getOpposites_loop view terminal includeSources includeTargets edges
       (getOpposites_body view terminal includeSources includeTargets edge acc)"

definition getOpposites ::
  "GraphView \<Rightarrow> cell list \<Rightarrow> cell option \<Rightarrow> bool \<Rightarrow> bool \<Rightarrow> cell list" where
  "getOpposites view edges terminal includeSources includeTargets =
     snd (getOpposites_loop view terminal includeSources includeTargets edges (Map.empty, []))"

section \<open>The data model\<close>

text \<open>
  The record of a \<open>ChildChange\<close> (the field \<open>model\<close> is the state that every operation
  below takes and returns). Indices are JavaScript numbers that hold integers.
\<close>

record ChildChange =
  parent :: "cell option"
  child :: cell
  previous :: "cell option"
  index :: int
  previousIndex :: int

text \<open>
  Modelled from the spec: class \<open>Cell\<close> (its file is not among the sources). Section 3
  and 4.1 of the specification give a cell a parent link, an ordered sequence of children,
  two nullable terminal references, a collapsed flag and a geometry, and the incident
  edges (a view without an order of its own, so a set) that the model keeps consistent
  with the terminal references. The geometry is a reference into the heap of geometry
  objects of the model.
\<close>

record Cell =
  parent :: "cell option"
  children :: "cell list"
  source :: "cell option"
  target :: "cell option"
  edges :: "cell set"
  collapsed :: bool
  geometry :: "nat option"

text \<open>
  \<open>Rectangle\<close> and \<open>Geometry\<close> (a rectangle with a relative flag and optional alternate
  bounds). The coordinates are JavaScript numbers; they are taken as real numbers, and no
  statement below depends on their arithmetic.
\<close>

record Rectangle =
  x_coord :: real
  y_coord :: real
  width :: real
  height :: real

record Geometry = Rectangle +
  relative :: bool
  alternateBounds :: "Rectangle option"

text \<open>
  The Change Records that the folding operations cause the model to record: the cell, the
  previous and the new value.
\<close>

datatype Change =
  CollapseChange cell bool bool
| GeometryChange cell "nat option" "nat option"

text \<open>The event that \<open>cellsFolded\<close> fires, with the values it carries.\<close>

datatype Event = CELLS_FOLDED "cell list" bool bool

text \<open>
  The state of a \<open>GraphDataModel\<close>: the heap of cell objects, the heap of geometry
  objects with the reference of the next object to be created (every reference below it
  is in use), and the Change Records that the model has recorded, in the order of their
  application. Two fields keep what the sources do not store: \<open>fired\<close> holds the events
  that the graph has fired, and \<open>visited\<close> is instrumentation to which
  \<open>ChildChange.connect\<close> appends the cell it is called with, so that the order of the
  cascade can be stated.
\<close>

record GraphDataModel =
  cells :: "cell \<Rightarrow> Cell"
  geometries :: "nat \<Rightarrow> Geometry"
  nextGeometry :: nat
  changes :: "Change list"
  fired :: "Event list"
  visited :: "cell list"

subsection \<open>Accessors of a cell\<close>

text \<open>
  Modelled from the spec: the accessors and mutators of \<open>Cell\<close>. By section 4.1 they read
  and write the one field and do no other book-keeping; \<open>getIndex\<close> answers the position
  of a child or \<open>-1\<close>.
\<close>

definition getParent :: "GraphDataModel \<Rightarrow> cell \<Rightarrow> cell option" where
  "getParent m c = parent (cells m c)"

definition getTerminal :: "GraphDataModel \<Rightarrow> cell \<Rightarrow> bool \<Rightarrow> cell option" where
  "getTerminal m c isSource = (if isSource then source (cells m c) else target (cells m c))"

definition setTerminal :: "cell \<Rightarrow> cell option \<Rightarrow> bool \<Rightarrow> GraphDataModel \<Rightarrow> GraphDataModel" where
  "setTerminal c terminal isSource m =
     m\<lparr>cells := (cells m)(c :=
        (if isSource then (cells m c)\<lparr>source := terminal\<rparr>
         else (cells m c)\<lparr>target := terminal\<rparr>))\<rparr>"

definition setEdges :: "cell \<Rightarrow> cell set \<Rightarrow> GraphDataModel \<Rightarrow> GraphDataModel" where
  "setEdges c es m = m\<lparr>cells := (cells m)(c := (cells m c)\<lparr>edges := es\<rparr>)\<rparr>"

definition getChildren :: "GraphDataModel \<Rightarrow> cell \<Rightarrow> cell list" where
  "getChildren m c = children (cells m c)"

definition setChildren :: "cell \<Rightarrow> cell list \<Rightarrow> GraphDataModel \<Rightarrow> GraphDataModel" where
  "setChildren p cs m = m\<lparr>cells := (cells m)(p := (cells m p)\<lparr>children := cs\<rparr>)\<rparr>"

definition setParent :: "cell \<Rightarrow> cell option \<Rightarrow> GraphDataModel \<Rightarrow> GraphDataModel" where
  "setParent c p m = m\<lparr>cells := (cells m)(c := (cells m c)\<lparr>parent := p\<rparr>)\<rparr>"

definition getChildCount :: "GraphDataModel \<Rightarrow> cell \<Rightarrow> nat" where
  "getChildCount m c = length (children (cells m c))"

definition getChildAt :: "GraphDataModel \<Rightarrow> cell \<Rightarrow> nat \<Rightarrow> cell option" where
  "getChildAt m c i =
     (if i < length (children (cells m c)) then Some (children (cells m c) ! i) else None)"

fun indexOf :: "cell list \<Rightarrow> cell \<Rightarrow> int" where
  "indexOf [] c = -1"
| "indexOf (a # as) c = (if a = c then 0 else (let i = indexOf as c in if i < 0 then -1 else i + 1))"

definition getIndex :: "GraphDataModel \<Rightarrow> cell \<Rightarrow> cell \<Rightarrow> int" where
  "getIndex m p c = indexOf (children (cells m p)) c"

definition isCollapsed :: "GraphDataModel \<Rightarrow> cell \<Rightarrow> bool" where
  "isCollapsed m c = collapsed (cells m c)"

definition getEdges :: "GraphDataModel \<Rightarrow> cell \<Rightarrow> cell set" where
  "getEdges m c = edges (cells m c)"

definition getGeometry :: "GraphDataModel \<Rightarrow> cell \<Rightarrow> nat option" where
  "getGeometry m c = geometry (cells m c)"

subsection \<open>The graph and its collaborators\<close>

text \<open>
  The style of a cell as \<open>getCurrentCellStyle\<close> resolves it; an absent key is \<open>None\<close>.
\<close>

record CellStyle =
  editable :: "bool option"
  foldable :: "bool option"
  rotation :: "real option"
  startSize :: "real option"

text \<open>
  The \<open>Graph\<close> that the mixins extend: its own fields \<open>cellsEditable\<close> and
  \<open>options.collapseToPreferredSize\<close>, and the methods that other mixins define and whose
  sources are not present, taken as they answer in a given state of the model:
  \<open>getCurrentCellStyle\<close>, \<open>isCellLocked\<close>, \<open>getPreferredSizeForCell\<close> (a new rectangle or
  \<open>null\<close>), \<open>isExtendParent\<close>, and the two methods that change the model, \<open>extendParent\<close> and
  \<open>constrainChild\<close>.
\<close>

record Graph =
  cellsEditable :: bool
  collapseToPreferredSize :: bool
  getCurrentCellStyle :: "GraphDataModel \<Rightarrow> cell \<Rightarrow> CellStyle"
  isCellLocked :: "GraphDataModel \<Rightarrow> cell \<Rightarrow> bool"
  getPreferredSizeForCell :: "GraphDataModel \<Rightarrow> cell \<Rightarrow> Rectangle option"
  isExtendParent :: "GraphDataModel \<Rightarrow> cell \<Rightarrow> bool"
  extendParent :: "cell \<Rightarrow> GraphDataModel \<Rightarrow> GraphDataModel"
  constrainChild :: "cell \<Rightarrow> GraphDataModel \<Rightarrow> GraphDataModel"

section \<open>EditingMixin.isCellEditable\<close>

definition isCellsEditable :: "Graph \<Rightarrow> bool" where
  "isCellsEditable g = cellsEditable g"

text \<open>
  \<open>style.editable || false\<close> is \<open>true\<close> for the value \<open>true\<close> and \<open>false\<close> for \<open>false\<close> and for
  an absent key.
\<close>

definition isCellEditable :: "Graph \<Rightarrow> GraphDataModel \<Rightarrow> cell \<Rightarrow> bool" where
  "isCellEditable g m c =
     (let style = getCurrentCellStyle g m c
      in isCellsEditable g \<and> \<not> isCellLocked g m c \<and>
         (case editable style of Some True \<Rightarrow> True | _ \<Rightarrow> False))"

section \<open>FoldingMixin.getFoldableCells\<close>

text \<open>
  Arrays of cells are heap objects too. The heap of arrays is a list, a reference is a
  position in it, and a new array is appended; reading a reference that is not allocated
  gives nothing.
\<close>

type_synonym array_heap = "cell list list"

definition array_read :: "array_heap \<Rightarrow> nat \<Rightarrow> cell list option" where
  "array_read h a = (if a < length h then Some (h ! a) else None)"

text \<open>
  Modelled from the spec: \<open>GraphDataModel.filterCells\<close> (its file is not among the
  sources), which by section 4.3 "returns a new ordered sequence containing only cells
  satisfying a caller-supplied predicate". The result is the reference of the new array
  and the heap that holds it.
\<close>

definition filterCells ::
  "array_heap \<Rightarrow> nat \<Rightarrow> (cell \<Rightarrow> bool) \<Rightarrow> (nat \<times> array_heap) option" where
  "filterCells h a pred =
     (case array_read h a of
        None \<Rightarrow> None
      | Some cs \<Rightarrow> Some (length h, h @ [filter pred cs]))"

text \<open>\<open>style.foldable ?? true\<close> is the value of the key, and \<open>true\<close> when it is absent.\<close>

definition isCellFoldable :: "Graph \<Rightarrow> GraphDataModel \<Rightarrow> cell \<Rightarrow> bool \<Rightarrow> bool" where
  "isCellFoldable g m c collapse =
     (let style = getCurrentCellStyle g m c
      in getChildCount m c > 0 \<and> (case foldable style of None \<Rightarrow> True | Some b \<Rightarrow> b))"

definition getFoldableCells ::
  "Graph \<Rightarrow> GraphDataModel \<Rightarrow> array_heap \<Rightarrow> nat \<Rightarrow> bool \<Rightarrow> (nat \<times> array_heap) option" where
  "getFoldableCells g m h a collapse =
     filterCells h a (\<lambda>c. isCellFoldable g m c collapse)"

section \<open>FoldingMixin.swapBounds and cellsFolded\<close>


definition setGeometry :: "cell \<Rightarrow> nat \<Rightarrow> GraphDataModel \<Rightarrow> GraphDataModel" where
  "setGeometry c geo m =
     (if getGeometry m c = Some geo then m
      else m\<lparr>cells := (cells m)(c := (cells m c)\<lparr>geometry := Some geo\<rparr>),
             changes := changes m @ [GeometryChange c (getGeometry m c) (Some geo)]\<rparr>)"

text \<open>
  Modelled from the spec: \<open>Geometry.clone\<close> and \<open>Geometry.swap\<close> (their file is not among the
  sources). A clone is a new object with the content of the given one, the alternate
  bounds included; \<open>swap\<close> exchanges the bounds of a geometry with its alternate bounds
  (section 3: the alternate bounds are the ones used when collapsed) and does nothing
  when there are none.
\<close>

definition clone :: "nat \<Rightarrow> GraphDataModel \<Rightarrow> nat \<times> GraphDataModel" where
  "clone geo m =
     (nextGeometry m,
      m\<lparr>geometries := (geometries m)(nextGeometry m := geometries m geo),
        nextGeometry := Suc (nextGeometry m)\<rparr>)"

definition swap :: "Geometry \<Rightarrow> Geometry" where
  "swap geo =
     (case alternateBounds geo of
        None \<Rightarrow> geo
      | Some ab \<Rightarrow>
          geo\<lparr>x_coord := x_coord ab, y_coord := y_coord ab, width := width ab,
              height := height ab,
              alternateBounds := Some \<lparr>x_coord = x_coord geo, y_coord = y_coord geo,
                                        width = width geo, height = height geo\<rparr>\<rparr>)"

definition getCenterX :: "'a Rectangle_scheme \<Rightarrow> real" where
  "getCenterX r = x_coord r + width r / 2"

definition getCenterY :: "'a Rectangle_scheme \<Rightarrow> real" where
  "getCenterY r = y_coord r + height r / 2"

definition toRadians :: "real \<Rightarrow> real" where
  "toRadians deg = pi * deg / 180"

text \<open>
  \<open>updateAlternateBounds\<close> for a cell and a geometry that are not \<open>null\<close>, as a function of the
  content of the geometry object that it changes in place. \<open>bounds\<close> is the geometry itself
  or the preferred size (a rectangle of its own, which the function may change without
  any effect on the model), of which only width and height are read;
  \<open>style.rotation || 0\<close> is 0 for an absent key, and \<open>startSize > 0\<close> is false for one.
\<close>

definition updateAlternateBounds ::
  "Graph \<Rightarrow> GraphDataModel \<Rightarrow> cell \<Rightarrow> Geometry \<Rightarrow> bool \<Rightarrow> Geometry" where
  "updateAlternateBounds g m c geo willCollapse =
     (let style = getCurrentCellStyle g m c;
          geo1 =
            (if alternateBounds geo = None then
               (let bounds =
                      (if collapseToPreferredSize g then
                         (case getPreferredSizeForCell g m c of
                            None \<Rightarrow> (width geo, height geo)
                          | Some tmp \<Rightarrow>
                              (case startSize style of
                                 None \<Rightarrow> (width tmp, height tmp)
                               | Some s \<Rightarrow>
                                   if s > 0 then (width tmp, max (height tmp) s)
                                   else (width tmp, height tmp)))
                       else (width geo, height geo))
                in geo\<lparr>alternateBounds :=
                      Some \<lparr>x_coord = 0, y_coord = 0, width = fst bounds, height = snd bounds\<rparr>\<rparr>)
             else geo)
      in case alternateBounds geo1 of
           None \<Rightarrow> geo1
         | Some ab \<Rightarrow>
             (let ab1 = ab\<lparr>x_coord := x_coord geo1, y_coord := y_coord geo1\<rparr>;
                  alpha = toRadians (case rotation style of None \<Rightarrow> 0 | Some d \<Rightarrow> d)
              in if alpha \<noteq> 0 then
                   (let dx = getCenterX ab1 - getCenterX geo1;
                        dy = getCenterY ab1 - getCenterY geo1;
                        dx2 = cos alpha * dx - sin alpha * dy;
                        dy2 = sin alpha * dx + cos alpha * dy
                    in geo1\<lparr>alternateBounds :=
                          Some (ab1\<lparr>x_coord := x_coord ab1 + (dx2 - dx),
                                      y_coord := y_coord ab1 + (dy2 - dy)\<rparr>)\<rparr>)
                 else geo1\<lparr>alternateBounds := Some ab1\<rparr>))"

definition swapBounds :: "Graph \<Rightarrow> cell \<Rightarrow> bool \<Rightarrow> GraphDataModel \<Rightarrow> GraphDataModel" where
  "swapBounds g c willCollapse m =
     (case getGeometry m c of
        None \<Rightarrow> m
      | Some old \<Rightarrow>
          (let res = clone old m;
               geo = fst res;
               m1 = snd res;
               m2 = m1\<lparr>geometries := (geometries m1)
                      (geo := updateAlternateBounds g m1 c (geometries m1 geo) willCollapse)\<rparr>;
               m3 = m2\<lparr>geometries := (geometries m2)(geo := swap (geometries m2 geo))\<rparr>
           in setGeometry c geo m3))"



text \<open>
  What it is for an operation to leave a cell alone: the cell object has the fields it
  had, and the Change Records that concern the cell are the ones there were.
\<close>

fun changeCell :: "Change \<Rightarrow> cell" where
  "changeCell (CollapseChange c old new) = c"
| "changeCell (GeometryChange c old new) = c"

definition untouched :: "cell \<Rightarrow> GraphDataModel \<Rightarrow> GraphDataModel \<Rightarrow> bool" where
  "untouched x m m' =
     (cells m' x = cells m x \<and>
      filter (\<lambda>r. changeCell r = x) (changes m') = filter (\<lambda>r. changeCell r = x) (changes m))"



text \<open>
  A state comes from another with the cell \<open>x\<close> changed by others only, when it arises by
  steps of three kinds: steps that leave \<open>x\<close> alone, calls of \<open>extendParent\<close> for a cell
  other than \<open>x\<close>, and calls of \<open>constrainChild\<close> for a cell other than \<open>x\<close>.
\<close>

inductive changedByOthers :: "Graph \<Rightarrow> cell \<Rightarrow> GraphDataModel \<Rightarrow> GraphDataModel \<Rightarrow> bool"
  for g :: Graph and x :: cell where
  alone: "untouched x m m' \<Longrightarrow> changedByOthers g x m m'"
| extended: "c \<noteq> x \<Longrightarrow> changedByOthers g x m (extendParent g c m)"
| constrained: "c \<noteq> x \<Longrightarrow> changedByOthers g x m (constrainChild g c m)"
| steps: "changedByOthers g x m m1 \<Longrightarrow> changedByOthers g x m1 m2 \<Longrightarrow> changedByOthers g x m m2"


section \<open>GraphDataModel: changes of a terminal and of the parent\<close>

text \<open>
  Modelled from the spec: \<open>GraphDataModel.terminalForCellChanged(edge, terminal, isSource)\<close>
  (its file is not among the sources). It is the inner update of a terminal change: it
  replaces the terminal reference of the edge on the given side and answers the previous
  one. By section 3 the incident edges of a terminal stay consistent with the references:
  the edge leaves the incident edges of the previous terminal unless its other side still
  ends there, and it joins the incident edges of the new terminal.
\<close>

definition terminalForCellChanged ::
  "cell \<Rightarrow> cell option \<Rightarrow> bool \<Rightarrow> GraphDataModel \<Rightarrow> cell option \<times> GraphDataModel" where
  "terminalForCellChanged edge terminal isSource m =
     (let previous = getTerminal m edge isSource;
          m1 = (case previous of
                  None \<Rightarrow> m
                | Some p \<Rightarrow>
                    if getTerminal m edge (\<not> isSource) = Some p then m
                    else setEdges p (getEdges m p - {edge}) m);
          m2 = setTerminal edge terminal isSource m1;
          m3 = (case terminal of
                  None \<Rightarrow> m2
                | Some t \<Rightarrow> setEdges t (insert edge (getEdges m2 t)) m2)
      in (previous, m3))"

text \<open>
  Modelled from the spec: \<open>GraphDataModel.parentForCellChanged(cell, parent, index)\<close> (its
  file is not among the sources). It is the inner update of a reparent: the cell leaves
  the child sequence of its previous parent, enters the one of the new parent at the
  given index, and its parent link is set; with \<open>null\<close> as new parent the cell is only
  detached. The previous parent is answered. An index beyond the end appends.
\<close>

definition insertAt :: "int \<Rightarrow> cell \<Rightarrow> cell list \<Rightarrow> cell list" where
  "insertAt i c cs = take (nat i) cs @ c # drop (nat i) cs"

definition parentForCellChanged ::
  "cell \<Rightarrow> cell option \<Rightarrow> int \<Rightarrow> GraphDataModel \<Rightarrow> cell option \<times> GraphDataModel" where
  "parentForCellChanged c newParent i m =
     (let previous = getParent m c;
          m1 = (case previous of
                  None \<Rightarrow> m
                | Some p \<Rightarrow> setChildren p (remove1 c (getChildren m p)) m);
          m2 = (case newParent of
                  None \<Rightarrow> m1
                | Some p \<Rightarrow> setChildren p (insertAt i c (getChildren m1 p)) m1)
      in (previous, setParent c newParent m2))"

section \<open>ChildChange\<close>

text \<open>The constructor: \<open>previous\<close> and \<open>previousIndex\<close> start as the given parent and index.\<close>

definition newChildChange :: "cell option \<Rightarrow> cell \<Rightarrow> int \<Rightarrow> ChildChange" where
  "newChildChange p c i =
     \<lparr>ChildChange.parent = p, child = c, previous = p, index = i, previousIndex = i\<rparr>"

text \<open>
  Lines 83 to 103 of \<open>connect\<close>, the part that concerns the cell itself: the two terminals are
  read, each one that is not \<open>null\<close> is connected or disconnected through the model, and the
  terminals that were read are written back into the cell. The first step, which the
  sources do not have, notes the cell in \<open>visited\<close>.
\<close>

definition connect_terminals :: "cell \<Rightarrow> bool \<Rightarrow> GraphDataModel \<Rightarrow> GraphDataModel" where
  "connect_terminals c isConnect m =
     (let m0 = m\<lparr>visited := visited m @ [c]\<rparr>;
          src = getTerminal m0 c True;
          trg = getTerminal m0 c False;
          m1 = (if src \<noteq> None then
                  (if isConnect then snd (terminalForCellChanged c src True m0)
                   else snd (terminalForCellChanged c None True m0))
                else m0);
          m2 = (if trg \<noteq> None then
                  (if isConnect then snd (terminalForCellChanged c trg False m1)
                   else snd (terminalForCellChanged c None False m1))
                else m1)
      in setTerminal c trg False (setTerminal c src True m2))"

text \<open>
  \<open>connect\<close> calls itself for every child, and the children come from the heap, so on a heap
  whose child links form a cycle it does not return. The first argument bounds the depth
  of the recursion; the result is \<open>None\<close> when the bound is reached, and also when
  \<open>getChildAt\<close> answers no cell for an index below the child count read before the loop (the
  call on it would throw).
\<close>

fun connect :: "nat \<Rightarrow> cell \<Rightarrow> bool \<Rightarrow> GraphDataModel \<Rightarrow> GraphDataModel option" where
  "connect 0 c isConnect m = None"
| "connect (Suc fuel) c isConnect m =
     (let m1 = connect_terminals c isConnect m;
          childCount = getChildCount m1 c
      in fold (\<lambda>i acc.
                case acc of
                  None \<Rightarrow> None
                | Some m' \<Rightarrow>
                    (case getChildAt m' c i of
                       None \<Rightarrow> None
                     | Some ch \<Rightarrow> connect fuel ch isConnect m'))
           [0..<childCount] (Some m1))"

definition execute ::
  "nat \<Rightarrow> ChildChange \<Rightarrow> GraphDataModel \<Rightarrow> (ChildChange \<times> GraphDataModel) option" where
  "execute fuel r m =
     (let tmp = getParent m (child r);
          tmp2 = (case tmp of Some p \<Rightarrow> getIndex m p (child r) | None \<Rightarrow> 0);
          r1 = (if previous r = None then connect fuel (child r) False m else Some m)
      in case r1 of
           None \<Rightarrow> None
         | Some m1 \<Rightarrow>
             (let res = parentForCellChanged (child r) (previous r) (previousIndex r) m1;
                  r2 = (if previous r \<noteq> None then connect fuel (child r) True (snd res)
                        else Some (snd res))
              in case r2 of
                   None \<Rightarrow> None
                 | Some m2 \<Rightarrow>
                     Some (r\<lparr>ChildChange.parent := previous r, previous := fst res,
                              index := previousIndex r, previousIndex := tmp2\<rparr>, m2)))"

text \<open>
  The cells below a cell in the order of a depth-first walk that takes the children of
  every cell by ascending index, as far as the bound on the depth allows: the order that
  section 4.2 of the specification asks of the cascade. It is defined from the child
  sequences alone.
\<close>

fun preorder :: "nat \<Rightarrow> (cell \<Rightarrow> cell list) \<Rightarrow> cell \<Rightarrow> cell list option" where
  "preorder 0 kids c = None"
| "preorder (Suc n) kids c =
     (case those (map (preorder n kids) (kids c)) of
        None \<Rightarrow> None
      | Some below \<Rightarrow> Some (c # concat below))"

text \<open>
  The consistency of parent links and child sequences that section 3 of the specification
  requires of a document: no cell occurs twice among the children of a cell, and a cell is
  among the children of exactly the cell that its parent link names.
\<close>

definition tree_consistent :: "GraphDataModel \<Rightarrow> bool" where
  "tree_consistent m =
     (\<forall>p. distinct (getChildren m p) \<and>
          (\<forall>c. (c \<in> set (getChildren m p)) = (getParent m c = Some p)))"

text \<open>The child sequences after a change of the parent, from those before.\<close>

definition reparented ::
  "(cell \<Rightarrow> cell list) \<Rightarrow> cell \<Rightarrow> cell option \<Rightarrow> cell option \<Rightarrow> int \<Rightarrow> cell \<Rightarrow> cell list" where
  "reparented kids c old new i =
     (let kids1 = (case old of None \<Rightarrow> kids | Some p \<Rightarrow> kids(p := remove1 c (kids p)))
      in case new of None \<Rightarrow> kids1 | Some p \<Rightarrow> kids1(p := insertAt i c (kids1 p)))"

section \<open>An example document\<close>

text \<open>
  Cell 0 is the root with the children 1 and 3; cell 1 has the children 2 and 4; cell 2 has
  the child 5, an edge from cell 3 to cell 4. Cells 1 and 2 have a geometry, and cell 4 is
  collapsed. In the example graph the style of cell 2 has \<open>foldable\<close> set to \<open>false\<close>, no
  other style key is set, no cell is locked, and the collaborators that change the model
  do nothing.
\<close>

definition emptyCell :: Cell where
  "emptyCell = \<lparr>parent = None, children = [], source = None, target = None, edges = {},
     collapsed = False, geometry = None\<rparr>"

definition emptyGeometry :: Geometry where
  "emptyGeometry = \<lparr>x_coord = 0, y_coord = 0, width = 0, height = 0,
     relative = False, alternateBounds = None\<rparr>"

definition example_model :: GraphDataModel where
  "example_model =
     \<lparr>cells = (\<lambda>_. emptyCell)
        (0 := emptyCell\<lparr>children := [1, 3]\<rparr>,
         1 := emptyCell\<lparr>parent := Some 0, children := [2, 4], geometry := Some 0\<rparr>,
         2 := emptyCell\<lparr>parent := Some 1, children := [5], geometry := Some 1\<rparr>,
         3 := emptyCell\<lparr>parent := Some 0, edges := {5}\<rparr>,
         4 := emptyCell\<lparr>parent := Some 1, edges := {5}, collapsed := True\<rparr>,
         5 := emptyCell\<lparr>parent := Some 2, source := Some 3, target := Some 4\<rparr>),
      geometries = (\<lambda>_. emptyGeometry)
        (0 := emptyGeometry\<lparr>width := 200, height := 100\<rparr>,
         1 := emptyGeometry\<lparr>x_coord := 10, y_coord := 10, width := 80, height := 40\<rparr>),
      nextGeometry = 2, changes = [], fired = [], visited = []\<rparr>"

definition noStyle :: CellStyle where
  "noStyle = \<lparr>editable = None, foldable = None, rotation = None, startSize = None\<rparr>"

definition example_graph :: Graph where
  "example_graph =
     \<lparr>cellsEditable = True, collapseToPreferredSize = True,
      getCurrentCellStyle = (\<lambda>_ c. if c = 2 then noStyle\<lparr>foldable := Some False\<rparr> else noStyle),
      isCellLocked = (\<lambda>_ _. False), getPreferredSizeForCell = (\<lambda>_ _. None),
      isExtendParent = (\<lambda>_ _. False), extendParent = (\<lambda>_ m. m),
      constrainChild = (\<lambda>_ m. m)\<rparr>"




section \<open>Opposite terminals\<close>

text \<open>
  The loop invariant: the dictionary holds \<open>true\<close> for exactly the cells of the result so
  far, the result has no duplicate, and the given terminal is not in it.
\<close>

definition opposites_inv :: "cell option \<Rightarrow> dictionary \<times> cell list \<Rightarrow> bool" where
  "opposites_inv terminal acc =
     (distinct (snd acc) \<and> terminal \<notin> Some ` set (snd acc) \<and>
      (\<forall>c. truthy (dict_get (fst acc) c) = (c \<in> set (snd acc))))"

lemma opposites_inv_push:
  assumes "opposites_inv terminal (dict, terminals)"
    and "\<not> truthy (dict_get dict c)" and "Some c \<noteq> terminal"
  shows "opposites_inv terminal (dict_put dict c True, terminals @ [c])"
  using assms by (auto simp: opposites_inv_def dict_get_def dict_put_def truthy_def)

lemma opposites_inv_body:
  assumes "opposites_inv terminal acc"
  shows "opposites_inv terminal (getOpposites_body view terminal incS incT edge acc)"
proof -
  obtain dict terminals where acc: "acc = (dict, terminals)"
    by (cases acc)
  have push: "opposites_inv terminal (dict_put dict c True, terminals @ [c])"
    if "\<not> truthy (dict_get dict c)" and "Some c \<noteq> terminal" for c
    using assms that unfolding acc by (rule opposites_inv_push)
  show ?thesis
    using assms push unfolding acc getOpposites_body_def Let_def
    by (cases "visibleTerminal view edge True"; cases "visibleTerminal view edge False") auto
qed

lemma opposites_inv_loop:
  "opposites_inv terminal acc \<Longrightarrow>
   opposites_inv terminal (getOpposites_loop view terminal incS incT edgeList acc)"
  by (induction edgeList arbitrary: acc) (simp_all add: opposites_inv_body)

text \<open>
  Claim C10. Whatever the edges, the terminal, the include flags and the visible terminals
  the view reports, the list that \<open>getOpposites\<close> returns has no duplicate cell and does
  not contain the given terminal.
\<close>

theorem getOpposites_distinct_without_terminal:
  "distinct (getOpposites view edgeList terminal includeSources includeTargets) \<and>
   terminal \<notin> Some ` set (getOpposites view edgeList terminal includeSources includeTargets)"
proof -
  have "opposites_inv terminal (Map.empty, [])"
    by (simp add: opposites_inv_def truthy_def dict_get_def)
  then have "opposites_inv terminal
      (getOpposites_loop view terminal includeSources includeTargets edgeList (Map.empty, []))"
    by (rule opposites_inv_loop)
  then show ?thesis
    by (simp add: opposites_inv_def getOpposites_def)
qed

section \<open>Editability\<close>

text \<open>
  Claim C9. \<open>isCellEditable\<close> is true exactly when \<open>isCellsEditable()\<close> holds, the cell is
  not locked and the resolved style has a true \<open>editable\<close> key; so for a cell whose style
  does not set \<open>editable\<close> to a true value it is false, also when \<open>cellsEditable\<close> is true
  and the cell is not locked.
\<close>

theorem isCellEditable_needs_style_editable:
  "isCellEditable g m c =
     (isCellsEditable g \<and> \<not> isCellLocked g m c \<and>
      editable (getCurrentCellStyle g m c) = Some True) \<and>
   (editable (getCurrentCellStyle g m c) \<noteq> Some True \<longrightarrow> \<not> isCellEditable g m c)"
  by (auto simp: isCellEditable_def split: option.splits bool.splits)

theorem isCellEditable_needs_style_editable_witness:
  "editable (getCurrentCellStyle example_graph example_model 1) \<noteq> Some True \<and>
   cellsEditable example_graph \<and> \<not> isCellLocked example_graph example_model 1 \<and>
   \<not> isCellEditable example_graph example_model 1"
  using isCellEditable_needs_style_editable [of example_graph example_model 1]
  by (simp add: example_graph_def noStyle_def)

section \<open>Foldable cells\<close>

text \<open>
  Claim C7. For an allocated array \<open>a\<close> holding \<open>cs\<close>, \<open>getFoldableCells\<close> returns the reference
  of a new array: it was not allocated before, so it is not \<open>a\<close>. The new array holds
  exactly the cells of \<open>cs\<close> for which \<open>isCellFoldable\<close> holds, in the order of \<open>cs\<close>, and every
  array allocated before, \<open>a\<close> among them, holds what it held.
\<close>

theorem getFoldableCells_new_filtered_sequence:
  assumes "array_read h a = Some cs"
  shows "\<exists>r h'. getFoldableCells g m h a collapse = Some (r, h') \<and>
           array_read h r = None \<and> r \<noteq> a \<and>
           array_read h' r = Some (filter (\<lambda>c. isCellFoldable g m c collapse) cs) \<and>
           set (filter (\<lambda>c. isCellFoldable g m c collapse) cs) =
             {c \<in> set cs. isCellFoldable g m c collapse} \<and>
           subseq (filter (\<lambda>c. isCellFoldable g m c collapse) cs) cs \<and>
           array_read h' a = Some cs \<and>
           (\<forall>b < length h. array_read h' b = array_read h b)"
proof -
  have a: "a < length h" and cs: "h ! a = cs"
    using assms by (auto simp: array_read_def split: if_splits)
  have "getFoldableCells g m h a collapse =
          Some (length h, h @ [filter (\<lambda>c. isCellFoldable g m c collapse) cs])"
    using assms by (simp add: getFoldableCells_def filterCells_def)
  moreover have "array_read h (length h) = None"
    by (simp add: array_read_def)
  moreover have "length h \<noteq> a"
    using a by simp
  moreover have "array_read (h @ [filter (\<lambda>c. isCellFoldable g m c collapse) cs]) (length h) =
          Some (filter (\<lambda>c. isCellFoldable g m c collapse) cs)"
    by (simp add: array_read_def)
  moreover have "\<forall>b < length h.
      array_read (h @ [filter (\<lambda>c. isCellFoldable g m c collapse) cs]) b = array_read h b"
    by (simp add: array_read_def nth_append)
  moreover have "array_read (h @ [filter (\<lambda>c. isCellFoldable g m c collapse) cs]) a = Some cs"
    using a cs by (simp add: array_read_def nth_append)
  ultimately show ?thesis
    by auto
qed


theorem getFoldableCells_new_filtered_sequence_witness:
  "array_read [[1, 2, 3]] 0 = Some [1, 2, 3] \<and>
   (\<exists>r h'. getFoldableCells example_graph example_model [[1, 2, 3]] 0 False = Some (r, h') \<and>
      r \<noteq> 0 \<and> array_read h' r = Some [1] \<and> array_read h' 0 = Some [1, 2, 3])"
proof -
  have h: "array_read [[1, 2, 3]] 0 = Some [1, 2, 3]"
    by (simp add: array_read_def)
  have f: "filter (\<lambda>c. isCellFoldable example_graph example_model c False) [1, 2, 3] = [1]"
    by (simp add: isCellFoldable_def getChildCount_def example_graph_def example_model_def
        emptyCell_def noStyle_def)
  from getFoldableCells_new_filtered_sequence [OF h, of example_graph example_model False]
  obtain r h' where "getFoldableCells example_graph example_model [[1, 2, 3]] 0 False = Some (r, h')"
    and "r \<noteq> 0"
    and "array_read h' r =
      Some (filter (\<lambda>c. isCellFoldable example_graph example_model c False) [1, 2, 3])"
    and "array_read h' 0 = Some [1, 2, 3]"
    by blast
  then show ?thesis
    unfolding f using h by blast
qed

section \<open>The cascade of connect\<close>

text \<open>
  What the changes of a terminal leave alone, and what they do to the incident edges.
\<close>

lemma setTerminal_frame:
  "getParent (setTerminal c t b m) = getParent m"
  "getChildren (setTerminal c t b m) = getChildren m"
  "getEdges (setTerminal c t b m) = getEdges m"
  "visited (setTerminal c t b m) = visited m"
  by (auto simp: fun_eq_iff getParent_def getChildren_def getEdges_def setTerminal_def)

lemma getTerminal_setTerminal:
  "getTerminal (setTerminal c t b m) x b' =
     (if x = c \<and> b' = b then t else getTerminal m x b')"
  by (simp add: getTerminal_def setTerminal_def)

lemma setEdges_frame:
  "getParent (setEdges c es m) = getParent m"
  "getChildren (setEdges c es m) = getChildren m"
  "getTerminal (setEdges c es m) = getTerminal m"
  "visited (setEdges c es m) = visited m"
  by (auto simp: fun_eq_iff getParent_def getChildren_def getTerminal_def setEdges_def)

lemma getEdges_setEdges:
  "getEdges (setEdges c es m) x = (if x = c then es else getEdges m x)"
  by (simp add: getEdges_def setEdges_def)

lemma terminalForCellChanged_frame:
  "getParent (snd (terminalForCellChanged e t b m)) = getParent m"
  "getChildren (snd (terminalForCellChanged e t b m)) = getChildren m"
  "visited (snd (terminalForCellChanged e t b m)) = visited m"
  by (simp_all add: terminalForCellChanged_def Let_def setTerminal_frame setEdges_frame
      split: option.splits)

lemma terminalForCellChanged_getTerminal:
  "getTerminal (snd (terminalForCellChanged e t b m)) x b' =
     (if x = e \<and> b' = b then t else getTerminal m x b')"
  by (auto simp add: terminalForCellChanged_def Let_def getTerminal_setTerminal setEdges_frame
      split: option.splits)

lemma terminalForCellChanged_getEdges:
  "getEdges (snd (terminalForCellChanged e t b m)) y =
     (let kept = (if getTerminal m e b = Some y \<and> getTerminal m e (\<not> b) \<noteq> Some y
                  then getEdges m y - {e} else getEdges m y)
      in if t = Some y then insert e kept else kept)"
  by (simp add: terminalForCellChanged_def Let_def setTerminal_frame getEdges_setEdges
      split: option.splits)

lemma getTerminal_visited_update:
  "getTerminal (m\<lparr>visited := v\<rparr>) = getTerminal m"
  "getParent (m\<lparr>visited := v\<rparr>) = getParent m"
  "getChildren (m\<lparr>visited := v\<rparr>) = getChildren m"
  "getEdges (m\<lparr>visited := v\<rparr>) = getEdges m"
  by (simp_all add: fun_eq_iff getTerminal_def getParent_def getChildren_def getEdges_def)

lemmas connect_terminals_simps =
  connect_terminals_def Let_def setTerminal_frame terminalForCellChanged_frame
  getTerminal_visited_update

lemma connect_terminals_visited:
  "visited (connect_terminals c b m) = visited m @ [c]"
  by (simp add: connect_terminals_simps)

lemma connect_terminals_getParent:
  "getParent (connect_terminals c b m) = getParent m"
  by (simp add: connect_terminals_simps)

lemma connect_terminals_getChildren:
  "getChildren (connect_terminals c b m) = getChildren m"
  by (simp add: connect_terminals_simps)

lemma connect_terminals_getTerminal:
  "getTerminal (connect_terminals c b m) = getTerminal m"
  by (auto simp add: fun_eq_iff connect_terminals_simps getTerminal_setTerminal
       terminalForCellChanged_getTerminal)

lemma connect_terminals_edges_False:
  "getEdges (connect_terminals c False m) t =
     (if getTerminal m c True = Some t \<or> getTerminal m c False = Some t
      then getEdges m t - {c} else getEdges m t)"
  by (auto simp add: connect_terminals_simps terminalForCellChanged_getTerminal
       terminalForCellChanged_getEdges)

lemma connect_terminals_edges_True:
  "getEdges (connect_terminals c True m) t =
     (if getTerminal m c True = Some t \<or> getTerminal m c False = Some t
      then insert c (getEdges m t) else getEdges m t)"
  by (auto simp add: connect_terminals_simps terminalForCellChanged_getTerminal
       terminalForCellChanged_getEdges)

text \<open>
  The cells of a cascade are handled one after the other; its effect is that of
  \<open>connect_terminals\<close> on each cell in the order of the walk.
\<close>

lemma cascade_frame:
  "getParent (fold (\<lambda>x. connect_terminals x b) xs m) = getParent m"
  "getChildren (fold (\<lambda>x. connect_terminals x b) xs m) = getChildren m"
  "getTerminal (fold (\<lambda>x. connect_terminals x b) xs m) = getTerminal m"
  "visited (fold (\<lambda>x. connect_terminals x b) xs m) = visited m @ xs"
  by (induction xs arbitrary: m;
      simp add: connect_terminals_getParent connect_terminals_getChildren
        connect_terminals_getTerminal connect_terminals_visited)+

lemma cascade_edges_False:
  "getEdges (fold (\<lambda>x. connect_terminals x False) xs m) t =
     getEdges m t - {x \<in> set xs. getTerminal m x True = Some t \<or> getTerminal m x False = Some t}"
  by (induction xs arbitrary: m)
     (auto simp add: connect_terminals_edges_False connect_terminals_getTerminal)

lemma cascade_edges_True:
  "getEdges (fold (\<lambda>x. connect_terminals x True) xs m) t =
     getEdges m t \<union> {x \<in> set xs. getTerminal m x True = Some t \<or> getTerminal m x False = Some t}"
  by (induction xs arbitrary: m)
     (auto simp add: connect_terminals_edges_True connect_terminals_getTerminal)

lemma those_map_Some:
  "those (map f ks) = Some ys \<Longrightarrow>
   length ys = length ks \<and> (\<forall>i < length ks. f (ks ! i) = Some (ys ! i))"
proof (induction ks arbitrary: ys)
  case Nil
  then show ?case by simp
next
  case (Cons k ks)
  from Cons.prems obtain y zs where y: "f k = Some y" and zs: "those (map f ks) = Some zs"
    and ys: "ys = y # zs"
    by (auto split: option.splits)
  from Cons.IH [OF zs] show ?case
    using y ys by (auto simp: nth_Cons split: nat.splits)
qed

lemma getChildCount_getChildren: "getChildCount m c = length (getChildren m c)"
  by (simp add: getChildCount_def getChildren_def)

lemma getChildAt_getChildren:
  "getChildAt m c i = (if i < length (getChildren m c) then Some (getChildren m c ! i) else None)"
  by (simp add: getChildAt_def getChildren_def)

lemma connect_children_loop:
  assumes IH: "\<And>ch m' ys. preorder n (getChildren m') ch = Some ys \<Longrightarrow>
                 connect n ch b m' = Some (fold (\<lambda>x. connect_terminals x b) ys m')"
    and below: "those (map (preorder n (getChildren m1)) (getChildren m1 c)) = Some below"
    and j: "j \<le> length (getChildren m1 c)"
  shows "fold (\<lambda>i acc.
                case acc of
                  None \<Rightarrow> None
                | Some m' \<Rightarrow>
                    (case getChildAt m' c i of
                       None \<Rightarrow> None
                     | Some ch \<Rightarrow> connect n ch b m'))
           [0..<j] (Some m1) =
         Some (fold (\<lambda>x. connect_terminals x b) (concat (take j below)) m1)"
  using j
proof (induction j)
  case 0
  show ?case by simp
next
  case (Suc j)
  let ?mj = "fold (\<lambda>x. connect_terminals x b) (concat (take j below)) m1"
  have kids: "getChildren ?mj = getChildren m1"
    by (rule cascade_frame)
  from those_map_Some [OF below] Suc.prems
  have len: "length below = length (getChildren m1 c)"
    and sub: "preorder n (getChildren m1) (getChildren m1 c ! j) = Some (below ! j)"
    by auto
  have at: "getChildAt ?mj c j = Some (getChildren m1 c ! j)"
    using Suc.prems by (simp add: getChildAt_getChildren kids)
  have step: "connect n (getChildren m1 c ! j) b ?mj =
      Some (fold (\<lambda>x. connect_terminals x b) (below ! j) ?mj)"
    by (rule IH) (simp add: kids sub)
  have tk: "concat (take (Suc j) below) = concat (take j below) @ below ! j"
    using Suc.prems len by (simp add: take_Suc_conv_app_nth)
  show ?case
    using Suc.IH Suc.prems at step by (simp add: tk)
qed

lemma connect_preorder:
  "preorder n (getChildren m) c = Some xs \<Longrightarrow>
   connect n c b m = Some (fold (\<lambda>x. connect_terminals x b) xs m)"
proof (induction n arbitrary: m c xs)
  case 0
  then show ?case by simp
next
  case (Suc n)
  let ?m1 = "connect_terminals c b m"
  have kids: "getChildren ?m1 = getChildren m"
    by (rule connect_terminals_getChildren)
  from Suc.prems obtain below
    where below: "those (map (preorder n (getChildren m)) (getChildren m c)) = Some below"
      and xs: "xs = c # concat below"
    by (auto split: option.splits)
  have len: "length below = length (getChildren m c)"
    using those_map_Some [OF below] by simp
  have "fold (\<lambda>i acc.
                case acc of
                  None \<Rightarrow> None
                | Some m' \<Rightarrow>
                    (case getChildAt m' c i of
                       None \<Rightarrow> None
                     | Some ch \<Rightarrow> connect n ch b m'))
           [0..<length (getChildren ?m1 c)] (Some ?m1) =
         Some (fold (\<lambda>x. connect_terminals x b)
                 (concat (take (length (getChildren ?m1 c)) below)) ?m1)"
    by (rule connect_children_loop [OF Suc.IH]) (simp_all add: kids below)
  then show ?case
    using len by (simp add: xs kids getChildCount_getChildren Let_def)
qed


section \<open>The walk below a cell\<close>

text \<open>
  A larger bound gives the same walk, the walk only reads the child sequences of the cells
  it lists, and the parent of its start is not among them.
\<close>

lemma those_map_all_Some:
  "those (map f ks) = Some ys \<Longrightarrow> k \<in> set ks \<Longrightarrow> \<exists>y. f k = Some y \<and> y \<in> set ys"
  using those_map_Some [of f ks ys] by (auto simp: in_set_conv_nth)

lemma those_map_cong:
  assumes "those (map f ks) = Some ys"
    and "\<And>k y. k \<in> set ks \<Longrightarrow> f k = Some y \<Longrightarrow> g k = Some y"
  shows "those (map g ks) = Some ys"
proof -
  have eq: "map g ks = map f ks"
  proof (rule map_cong [OF refl])
    fix k assume k: "k \<in> set ks"
    from those_map_all_Some [OF assms(1) k] obtain y where "f k = Some y" by blast
    with assms(2) [OF k] show "g k = f k" by simp
  qed
  show ?thesis unfolding eq by (rule assms(1))
qed

lemma preorder_Suc:
  "preorder n kids c = Some xs \<Longrightarrow> preorder (Suc n) kids c = Some xs"
proof (induction n arbitrary: c xs)
  case 0
  then show ?case by simp
next
  case (Suc n)
  from Suc.prems obtain below
    where below: "those (map (preorder n kids) (kids c)) = Some below"
      and xs: "xs = c # concat below"
    by (auto split: option.splits)
  have "those (map (preorder (Suc n) kids) (kids c)) = Some below"
    using below Suc.IH by (rule those_map_cong)
  then show ?case
    using xs by (simp del: preorder.simps add: preorder.simps(2) [of "Suc n"])
qed

lemma preorder_cong:
  "preorder n kids c = Some xs \<Longrightarrow> (\<forall>x \<in> set xs. kids' x = kids x) \<Longrightarrow>
   preorder n kids' c = Some xs"
proof (induction n arbitrary: c xs)
  case 0
  then show ?case by simp
next
  case (Suc n)
  from Suc.prems(1) obtain below
    where below: "those (map (preorder n kids) (kids c)) = Some below"
      and xs: "xs = c # concat below"
    by (auto split: option.splits)
  have c: "kids' c = kids c"
    using Suc.prems(2) xs by simp
  have "those (map (preorder n kids') (kids c)) = Some below"
    using below
  proof (rule those_map_cong)
    fix k y assume k: "k \<in> set (kids c)" and y: "preorder n kids k = Some y"
    from those_map_all_Some [OF below k] y have "y \<in> set below" by simp
    then have "\<forall>x \<in> set y. kids' x = kids x"
      using Suc.prems(2) xs by auto
    with y show "preorder n kids' k = Some y" by (rule Suc.IH)
  qed
  then show ?case
    using xs c by simp
qed

lemma preorder_child_shorter:
  "preorder n kids c = Some xs \<Longrightarrow> x \<in> set xs \<Longrightarrow> ch \<in> set (kids x) \<Longrightarrow>
   \<exists>ys. preorder n kids ch = Some ys \<and> length ys < length xs"
proof (induction n arbitrary: c xs)
  case 0
  then show ?case by simp
next
  case (Suc n)
  from Suc.prems(1) obtain below
    where below: "those (map (preorder n kids) (kids c)) = Some below"
      and xs: "xs = c # concat below"
    by (auto split: option.splits)
  have part: "length y \<le> length (concat below)" if "y \<in> set below" for y
    using that by (induction below) auto
  show ?case
  proof (cases "x = c")
    case True
    with Suc.prems(3) have "ch \<in> set (kids c)" by simp
    from those_map_all_Some [OF below this] obtain y
      where y: "preorder n kids ch = Some y" and "y \<in> set below" by blast
    then have "length y < length xs"
      using part xs by fastforce
    with preorder_Suc [OF y] show ?thesis by blast
  next
    case False
    with Suc.prems(2) xs obtain y where yb: "y \<in> set below" and xy: "x \<in> set y"
      by auto
    from yb those_map_Some [OF below] obtain k where "preorder n kids k = Some y"
      by (metis in_set_conv_nth)
    from Suc.IH [OF this xy Suc.prems(3)] obtain ys
      where ys: "preorder n kids ch = Some ys" and "length ys < length y" by blast
    then have "length ys < length xs"
      using part [OF yb] xs by simp
    with preorder_Suc [OF ys] show ?thesis by blast
  qed
qed

lemma parent_not_below:
  assumes "preorder n kids c = Some xs" and "c \<in> set (kids p)"
  shows "p \<notin> set xs"
proof
  assume "p \<in> set xs"
  from preorder_child_shorter [OF assms(1) this assms(2)] assms(1)
  show False by simp
qed

section \<open>Moving a cell and moving it back\<close>

lemma remove1_insertAt:
  "c \<notin> set cs \<Longrightarrow> remove1 c (insertAt i c cs) = cs"
proof -
  assume c: "c \<notin> set cs"
  then have "c \<notin> set (take (nat i) cs)"
    by (auto dest: in_set_takeD)
  then show ?thesis
    by (simp add: insertAt_def remove1_append)
qed

lemma indexOf_nonneg: "c \<in> set cs \<Longrightarrow> 0 \<le> indexOf cs c"
  by (induction cs) (auto simp: Let_def)

lemma insertAt_indexOf:
  "c \<in> set cs \<Longrightarrow> insertAt (indexOf cs c) c (remove1 c cs) = cs"
proof (induction cs)
  case Nil
  then show ?case by simp
next
  case (Cons a cs)
  show ?case
  proof (cases "a = c")
    case True
    then show ?thesis by (simp add: insertAt_def)
  next
    case False
    with Cons.prems have c: "c \<in> set cs" by simp
    then have nn: "0 \<le> indexOf cs c" by (rule indexOf_nonneg)
    then have "nat (indexOf cs c + 1) = Suc (nat (indexOf cs c))" by simp
    with Cons.IH [OF c] False nn show ?thesis
      by (simp add: insertAt_def Let_def)
  qed
qed

lemma setChildren_frame:
  "getParent (setChildren p cs m) = getParent m"
  "getTerminal (setChildren p cs m) = getTerminal m"
  "getEdges (setChildren p cs m) = getEdges m"
  "visited (setChildren p cs m) = visited m"
  "getChildren (setChildren p cs m) = (getChildren m)(p := cs)"
  by (auto simp: fun_eq_iff getParent_def getTerminal_def getEdges_def getChildren_def
      setChildren_def)

lemma setParent_frame:
  "getParent (setParent c p m) = (getParent m)(c := p)"
  "getTerminal (setParent c p m) = getTerminal m"
  "getEdges (setParent c p m) = getEdges m"
  "visited (setParent c p m) = visited m"
  "getChildren (setParent c p m) = getChildren m"
  by (auto simp: fun_eq_iff getParent_def getTerminal_def getEdges_def getChildren_def
      setParent_def)

lemma parentForCellChanged_frame:
  "fst (parentForCellChanged c new i m) = getParent m c"
  "getParent (snd (parentForCellChanged c new i m)) = (getParent m)(c := new)"
  "getTerminal (snd (parentForCellChanged c new i m)) = getTerminal m"
  "getEdges (snd (parentForCellChanged c new i m)) = getEdges m"
  "visited (snd (parentForCellChanged c new i m)) = visited m"
  "getChildren (snd (parentForCellChanged c new i m)) =
     reparented (getChildren m) c (getParent m c) new i"
  by (simp_all add: parentForCellChanged_def reparented_def Let_def setChildren_frame
      setParent_frame split: option.splits)

lemma reparented_outside:
  "Some x \<noteq> old \<Longrightarrow> Some x \<noteq> new \<Longrightarrow> reparented kids c old new i x = kids x"
  by (auto simp: reparented_def Let_def split: option.splits)

lemma reparented_back:
  assumes dist: "\<forall>p. distinct (kids p)"
    and cons: "\<forall>p. (c \<in> set (kids p)) = (old = Some p)"
  shows "reparented (reparented kids c old new i) c new old
           (case old of Some p \<Rightarrow> indexOf (kids p) c | None \<Rightarrow> 0) = kids"
proof (rule ext)
  fix x
  have notin: "c \<notin> set (remove1 c (kids p))" for p
    using dist by simp
  have other: "c \<notin> set (kids p)" if "old \<noteq> Some p" for p
    using cons that by simp
  have mem: "c \<in> set (kids p)" if "old = Some p" for p
    using cons that by simp
  show "reparented (reparented kids c old new i) c new old
           (case old of Some p \<Rightarrow> indexOf (kids p) c | None \<Rightarrow> 0) x = kids x"
  proof (cases old)
    case None
    then show ?thesis
      using other by (cases new) (auto simp: reparented_def remove1_insertAt)
  next
    case (Some p0)
    show ?thesis
    proof (cases new)
      case None
      then show ?thesis
        using Some mem by (auto simp: reparented_def insertAt_indexOf)
    next
      case (Some p1)
      show ?thesis
      proof (cases "p1 = p0")
        case True
        then show ?thesis
          using \<open>old = Some p0\<close> Some mem notin
          by (auto simp: reparented_def remove1_insertAt insertAt_indexOf)
      next
        case False
        then have "c \<notin> set (kids p1)"
          using other \<open>old = Some p0\<close> by simp
        then show ?thesis
          using \<open>old = Some p0\<close> Some mem False
          by (auto simp: reparented_def remove1_insertAt insertAt_indexOf)
      qed
    qed
  qed
qed


lemma getIndex_getChildren: "getIndex m p c = indexOf (getChildren m p) c"
  by (simp add: getIndex_def getChildren_def)

lemma reparented_below:
  "old \<notin> Some ` set xs \<Longrightarrow> new \<notin> Some ` set xs \<Longrightarrow> x \<in> set xs \<Longrightarrow>
   reparented kids c old new i x = kids x"
  by (rule reparented_outside; blast)

lemma execute_effect:
  assumes pre: "preorder n (getChildren m) (child r) = Some xs"
    and new: "previous r \<notin> Some ` set xs"
    and old: "getParent m (child r) \<notin> Some ` set xs"
  shows "\<exists>r' m'. execute n r m = Some (r', m') \<and>
           r' = r\<lparr>ChildChange.parent := previous r, previous := getParent m (child r),
                  index := previousIndex r,
                  previousIndex := (case getParent m (child r) of
                                      Some p \<Rightarrow> getIndex m p (child r)
                                    | None \<Rightarrow> 0)\<rparr> \<and>
           getParent m' = (getParent m)(child r := previous r) \<and>
           getChildren m' =
             reparented (getChildren m) (child r) (getParent m (child r)) (previous r)
               (previousIndex r) \<and>
           getTerminal m' = getTerminal m \<and>
           visited m' = visited m @ xs \<and>
           (\<forall>t. getEdges m' t =
              (if previous r = None
               then getEdges m t -
                 {x \<in> set xs. getTerminal m x True = Some t \<or> getTerminal m x False = Some t}
               else getEdges m t \<union>
                 {x \<in> set xs. getTerminal m x True = Some t \<or> getTerminal m x False = Some t}))"
proof (cases "previous r")
  case None
  let ?m1 = "fold (\<lambda>x. connect_terminals x False) xs m"
  have c1: "connect n (child r) False m = Some ?m1"
    using pre by (rule connect_preorder)
  show ?thesis
    using None c1
    by (simp add: execute_def Let_def parentForCellChanged_frame cascade_frame
        cascade_edges_False)
next
  case (Some p)
  let ?m1 = "snd (parentForCellChanged (child r) (previous r) (previousIndex r) m)"
  have "\<forall>x \<in> set xs. getChildren ?m1 x = getChildren m x"
    using new old by (simp add: parentForCellChanged_frame reparented_below)
  with pre have "preorder n (getChildren ?m1) (child r) = Some xs"
    by (rule preorder_cong)
  then have c2: "connect n (child r) True ?m1 =
      Some (fold (\<lambda>x. connect_terminals x True) xs ?m1)"
    by (rule connect_preorder)
  show ?thesis
    using Some c2
    by (simp add: execute_def Let_def parentForCellChanged_frame cascade_frame
        cascade_edges_True)
qed

lemma execute_twice:
  assumes pre: "preorder n (getChildren m) (child r) = Some xs"
    and new: "previous r \<notin> Some ` set xs"
    and cons: "tree_consistent m"
  shows "\<exists>r1 m1 r2 m2.
           execute n r m = Some (r1, m1) \<and> execute n r1 m1 = Some (r2, m2) \<and>
           previous r1 = getParent m (child r) \<and>
           previousIndex r1 = (case getParent m (child r) of
                                 Some p \<Rightarrow> getIndex m p (child r) | None \<Rightarrow> 0) \<and>
           ChildChange.parent r1 = previous r \<and> index r1 = previousIndex r \<and>
           child r1 = child r \<and>
           getParent m1 = (getParent m)(child r := previous r) \<and>
           getTerminal m1 = getTerminal m \<and>
           visited m1 = visited m @ xs \<and>
           (\<forall>t. getEdges m1 t =
              (if previous r = None
               then getEdges m t -
                 {x \<in> set xs. getTerminal m x True = Some t \<or> getTerminal m x False = Some t}
               else getEdges m t \<union>
                 {x \<in> set xs. getTerminal m x True = Some t \<or> getTerminal m x False = Some t})) \<and>
           getParent m2 = getParent m \<and>
           getChildren m2 = getChildren m \<and>
           getTerminal m2 = getTerminal m \<and>
           visited m2 = visited m1 @ xs \<and>
           (\<forall>t. getEdges m2 t =
              (if getParent m (child r) = None
               then getEdges m1 t -
                 {x \<in> set xs. getTerminal m x True = Some t \<or> getTerminal m x False = Some t}
               else getEdges m1 t \<union>
                 {x \<in> set xs. getTerminal m x True = Some t \<or> getTerminal m x False = Some t}))"
proof -
  let ?c = "child r"
  let ?old = "getParent m ?c"
  have dist: "\<forall>p. distinct (getChildren m p)"
    and mem: "\<forall>p. (?c \<in> set (getChildren m p)) = (?old = Some p)"
    using cons by (simp_all add: tree_consistent_def)
  have old: "?old \<notin> Some ` set xs"
  proof
    assume "?old \<in> Some ` set xs"
    then obtain p where p: "?old = Some p" and "p \<in> set xs" by auto
    moreover from p mem have "?c \<in> set (getChildren m p)" by simp
    ultimately show False
      using parent_not_below [OF pre] by blast
  qed
  from execute_effect [OF pre new old] obtain r1 m1
    where e1: "execute n r m = Some (r1, m1)"
      and r1: "r1 = r\<lparr>ChildChange.parent := previous r, previous := ?old,
                  index := previousIndex r,
                  previousIndex := (case ?old of Some p \<Rightarrow> getIndex m p ?c | None \<Rightarrow> 0)\<rparr>"
      and par1: "getParent m1 = (getParent m)(?c := previous r)"
      and kids1: "getChildren m1 =
             reparented (getChildren m) ?c ?old (previous r) (previousIndex r)"
      and term1: "getTerminal m1 = getTerminal m"
      and vis1: "visited m1 = visited m @ xs"
      and edges1: "\<forall>t. getEdges m1 t =
              (if previous r = None
               then getEdges m t -
                 {x \<in> set xs. getTerminal m x True = Some t \<or> getTerminal m x False = Some t}
               else getEdges m t \<union>
                 {x \<in> set xs. getTerminal m x True = Some t \<or> getTerminal m x False = Some t})"
    by blast
  have c1: "child r1 = ?c" and prev1: "previous r1 = ?old"
    and pidx1: "previousIndex r1 = (case ?old of Some p \<Rightarrow> getIndex m p ?c | None \<Rightarrow> 0)"
    and p1: "ChildChange.parent r1 = previous r" and i1: "index r1 = previousIndex r"
    by (simp_all add: r1)
  have "\<forall>x \<in> set xs. getChildren m1 x = getChildren m x"
    using new old by (simp add: kids1 reparented_below)
  with pre have pre1: "preorder n (getChildren m1) (child r1) = Some xs"
    unfolding c1 by (rule preorder_cong)
  have new1: "previous r1 \<notin> Some ` set xs"
    using old by (simp add: prev1)
  have old1: "getParent m1 (child r1) \<notin> Some ` set xs"
    using new by (simp add: c1 par1)
  from execute_effect [OF pre1 new1 old1] obtain r2 m2
    where e2: "execute n r1 m1 = Some (r2, m2)"
      and par2: "getParent m2 = (getParent m1)(child r1 := previous r1)"
      and kids2: "getChildren m2 =
             reparented (getChildren m1) (child r1) (getParent m1 (child r1)) (previous r1)
               (previousIndex r1)"
      and term2: "getTerminal m2 = getTerminal m1"
      and vis2: "visited m2 = visited m1 @ xs"
      and edges2: "\<forall>t. getEdges m2 t =
              (if previous r1 = None
               then getEdges m1 t -
                 {x \<in> set xs. getTerminal m1 x True = Some t \<or> getTerminal m1 x False = Some t}
               else getEdges m1 t \<union>
                 {x \<in> set xs. getTerminal m1 x True = Some t \<or> getTerminal m1 x False = Some t})"
    by blast
  have "getParent m2 = getParent m"
    by (simp add: par2 par1 c1 prev1)
  moreover have "getChildren m2 = getChildren m"
  proof -
    have idx: "previousIndex r1 =
        (case ?old of Some p \<Rightarrow> indexOf (getChildren m p) ?c | None \<Rightarrow> 0)"
      by (simp add: pidx1 getIndex_getChildren split: option.splits)
    have "getChildren m2 =
        reparented (reparented (getChildren m) ?c ?old (previous r) (previousIndex r))
          ?c (previous r) ?old
          (case ?old of Some p \<Rightarrow> indexOf (getChildren m p) ?c | None \<Rightarrow> 0)"
      by (simp add: kids2 kids1 c1 par1 prev1 idx)
    also have "\<dots> = getChildren m"
      using dist mem by (rule reparented_back)
    finally show ?thesis .
  qed
  moreover have "getTerminal m2 = getTerminal m"
    by (simp add: term2 term1)
  moreover have "\<forall>t. getEdges m2 t =
              (if ?old = None
               then getEdges m1 t -
                 {x \<in> set xs. getTerminal m x True = Some t \<or> getTerminal m x False = Some t}
               else getEdges m1 t \<union>
                 {x \<in> set xs. getTerminal m x True = Some t \<or> getTerminal m x False = Some t})"
    using edges2 unfolding prev1 term1 .
  ultimately show ?thesis
    using e1 e2 prev1 pidx1 p1 i1 c1 par1 term1 vis1 vis2 edges1 by blast
qed


text \<open>The example document: its child sequences, parent links and terminals.\<close>

lemma example_getChildren:
  "getChildren example_model =
     (\<lambda>_. [])(0 := [1, 3], 1 := [2, 4], 2 := [5])"
  by (auto simp: fun_eq_iff getChildren_def example_model_def emptyCell_def)

lemma example_getParent:
  "getParent example_model =
     (\<lambda>_. None)(1 := Some 0, 2 := Some 1, 3 := Some 0, 4 := Some 1, 5 := Some 2)"
  by (auto simp: fun_eq_iff getParent_def example_model_def emptyCell_def)

lemma example_getTerminal:
  "getTerminal example_model =
     (\<lambda>_ _. None)(5 := (\<lambda>b. if b then Some 3 else Some 4))"
  by (auto simp: fun_eq_iff getTerminal_def example_model_def emptyCell_def)

lemma example_preorder: "preorder 2 (getChildren example_model) 2 = Some [2, 5]"
  by (simp add: example_getChildren numeral_2_eq_2)

lemma example_consistent: "tree_consistent example_model"
  unfolding tree_consistent_def example_getChildren example_getParent
  by auto

section \<open>ChildChange: the claims\<close>

text \<open>
  Claim C1. In a document whose parent links and child sequences are consistent, for a
  record whose new parent is not below the moved cell, two calls of \<open>execute\<close> in
  succession both return, and after them every parent link, every child sequence (so the
  index of every child) and both terminal references of every cell, the moved cell and
  its descendants among them, are what they were before the first call.
\<close>

theorem execute_twice_restores:
  assumes "preorder n (getChildren m) (child r) = Some xs"
    and "previous r \<notin> Some ` set xs"
    and "tree_consistent m"
  shows "\<exists>r1 m1 r2 m2.
           execute n r m = Some (r1, m1) \<and> execute n r1 m1 = Some (r2, m2) \<and>
           getParent m2 = getParent m \<and> getChildren m2 = getChildren m \<and>
           (\<forall>p c. getIndex m2 p c = getIndex m p c) \<and>
           getTerminal m2 = getTerminal m"
proof -
  from execute_twice [OF assms] obtain r1 m1 r2 m2
    where "execute n r m = Some (r1, m1)" and "execute n r1 m1 = Some (r2, m2)"
      and "getParent m2 = getParent m" and "getChildren m2 = getChildren m"
      and "getTerminal m2 = getTerminal m"
    by blast
  then show ?thesis
    by (auto simp: getIndex_getChildren)
qed

theorem execute_twice_restores_witness:
  "preorder 2 (getChildren example_model) (child (newChildChange (Some 0) 2 1)) = Some [2, 5] \<and>
   previous (newChildChange (Some 0) 2 1) \<notin> Some ` set [2, 5] \<and>
   tree_consistent example_model \<and>
   (\<exists>r1 m1 r2 m2.
      execute 2 (newChildChange (Some 0) 2 1) example_model = Some (r1, m1) \<and>
      execute 2 r1 m1 = Some (r2, m2) \<and>
      getParent m2 = getParent example_model \<and> getChildren m2 = getChildren example_model \<and>
      (\<forall>p c. getIndex m2 p c = getIndex example_model p c) \<and>
      getTerminal m2 = getTerminal example_model)"
proof -
  have h1: "preorder 2 (getChildren example_model) (child (newChildChange (Some 0) 2 1)) =
      Some [2, 5]"
    using example_preorder by (simp add: newChildChange_def)
  have h2: "previous (newChildChange (Some 0) 2 1) \<notin> Some ` set [2, 5]"
    by (simp add: newChildChange_def)
  show ?thesis
    using h1 h2 example_consistent execute_twice_restores [OF h1 h2 example_consistent]
    by blast
qed


text \<open>
  Claim C3, as amended. A record as constructed holds the given parent and index in both
  pairs of fields: \<open>previous\<close> and \<open>previousIndex\<close> are the new position, not the one the
  cell has. The first call of \<open>execute\<close> stores in them the parent and the index that the
  cell had before that call (index 0 for a cell without parent), and a second call moves
  the cell back to that parent and gives every child sequence back its content.
\<close>

theorem execute_stores_previous_position:
  assumes "preorder n (getChildren m) c = Some xs"
    and "new \<notin> Some ` set xs"
    and "tree_consistent m"
  shows "previous (newChildChange new c i) = new \<and>
         previousIndex (newChildChange new c i) = i \<and>
         (\<exists>r1 m1 r2 m2.
            execute n (newChildChange new c i) m = Some (r1, m1) \<and>
            previous r1 = getParent m c \<and>
            previousIndex r1 = (case getParent m c of Some p \<Rightarrow> getIndex m p c | None \<Rightarrow> 0) \<and>
            ChildChange.parent r1 = new \<and> index r1 = i \<and>
            execute n r1 m1 = Some (r2, m2) \<and>
            getParent m2 c = getParent m c \<and> getChildren m2 = getChildren m)"
proof -
  let ?r = "newChildChange new c i"
  have c: "child ?r = c" and p: "previous ?r = new" and pi: "previousIndex ?r = i"
    by (simp_all add: newChildChange_def)
  have h1: "preorder n (getChildren m) (child ?r) = Some xs"
    using assms(1) by (simp add: c)
  have h2: "previous ?r \<notin> Some ` set xs"
    using assms(2) by (simp add: p)
  from execute_twice [OF h1 h2 assms(3)] obtain r1 m1 r2 m2
    where "execute n ?r m = Some (r1, m1)" and "execute n r1 m1 = Some (r2, m2)"
      and "previous r1 = getParent m (child ?r)"
      and "previousIndex r1 =
             (case getParent m (child ?r) of Some p \<Rightarrow> getIndex m p (child ?r) | None \<Rightarrow> 0)"
      and "ChildChange.parent r1 = previous ?r" and "index r1 = previousIndex ?r"
      and "getParent m2 = getParent m" and "getChildren m2 = getChildren m"
    by blast
  then show ?thesis
    unfolding c p pi by auto
qed

theorem execute_stores_previous_position_witness:
  "preorder 2 (getChildren example_model) 2 = Some [2, 5] \<and>
   Some (0::nat) \<notin> Some ` set [2, 5] \<and> tree_consistent example_model \<and>
   (\<exists>r1 m1 r2 m2.
      execute 2 (newChildChange (Some 0) 2 1) example_model = Some (r1, m1) \<and>
      previous r1 = Some 1 \<and> previousIndex r1 = 0 \<and>
      ChildChange.parent r1 = Some 0 \<and> index r1 = 1 \<and>
      execute 2 r1 m1 = Some (r2, m2) \<and>
      getParent m2 2 = Some 1 \<and> getChildren m2 = getChildren example_model)"
proof -
  have h2: "Some (0::nat) \<notin> Some ` set [2, 5]"
    by simp
  have par: "getParent example_model 2 = Some 1"
    by (simp add: example_getParent)
  have idx: "getIndex example_model (Suc 0) 2 = 0"
    by (simp add: getIndex_getChildren example_getChildren)
  show ?thesis
    using example_preorder h2 example_consistent
      execute_stores_previous_position [OF example_preorder h2 example_consistent, of 1]
    by (simp add: par idx)
qed

text \<open>
  The claim as it is written fails: in the example document cell 2 is the first child of
  cell 1, and the record constructed to move it to cell 0 at index 1 holds cell 0 and
  index 1 as \<open>previous\<close> and \<open>previousIndex\<close>.
\<close>

theorem constructor_previous_counterexample:
  "\<not> (previous (newChildChange (Some 0) 2 1) = getParent example_model 2 \<and>
      previousIndex (newChildChange (Some 0) 2 1) = getIndex example_model 1 2)"
  by (simp add: newChildChange_def example_getParent)

text \<open>
  Claim C4. \<open>connect\<close> returns on a cell whose walk exists, for disconnecting and for
  connecting alike, and the cells it is called with are the cells of the walk that takes
  the children of every cell by ascending index, in that order; the child sequences are
  left as they are. So both calls of \<open>execute\<close> of a cycle visit the same cells in the same
  order.
\<close>

theorem cascade_visits_in_index_order:
  assumes "preorder n (getChildren m) (child r) = Some xs"
    and "previous r \<notin> Some ` set xs"
    and "tree_consistent m"
  shows "(\<forall>isConnect. \<exists>m'. connect n (child r) isConnect m = Some m' \<and>
            visited m' = visited m @ xs \<and> getChildren m' = getChildren m) \<and>
         (\<exists>r1 m1 r2 m2.
            execute n r m = Some (r1, m1) \<and> visited m1 = visited m @ xs \<and>
            execute n r1 m1 = Some (r2, m2) \<and> visited m2 = visited m1 @ xs)"
proof
  show "\<forall>isConnect. \<exists>m'. connect n (child r) isConnect m = Some m' \<and>
            visited m' = visited m @ xs \<and> getChildren m' = getChildren m"
    using connect_preorder [OF assms(1)] by (simp add: cascade_frame)
  from execute_twice [OF assms] obtain r1 m1 r2 m2
    where "execute n r m = Some (r1, m1)" and "execute n r1 m1 = Some (r2, m2)"
      and "visited m1 = visited m @ xs" and "visited m2 = visited m1 @ xs"
    by blast
  then show "\<exists>r1 m1 r2 m2.
            execute n r m = Some (r1, m1) \<and> visited m1 = visited m @ xs \<and>
            execute n r1 m1 = Some (r2, m2) \<and> visited m2 = visited m1 @ xs"
    by blast
qed

theorem cascade_visits_in_index_order_witness:
  "preorder 3 (getChildren example_model) (child (newChildChange None 1 0)) = Some [1, 2, 5, 4] \<and>
   previous (newChildChange None 1 0) \<notin> Some ` set [1, 2, 5, 4] \<and>
   tree_consistent example_model \<and>
   (\<forall>isConnect. \<exists>m'. connect 3 (child (newChildChange None 1 0)) isConnect example_model = Some m' \<and>
      visited m' = visited example_model @ [1, 2, 5, 4] \<and>
      getChildren m' = getChildren example_model) \<and>
   (\<exists>r1 m1 r2 m2.
      execute 3 (newChildChange None 1 0) example_model = Some (r1, m1) \<and>
      visited m1 = visited example_model @ [1, 2, 5, 4] \<and>
      execute 3 r1 m1 = Some (r2, m2) \<and> visited m2 = visited m1 @ [1, 2, 5, 4])"
proof -
  have h1: "preorder 3 (getChildren example_model) (child (newChildChange None 1 0)) =
      Some [1, 2, 5, 4]"
    by (simp add: newChildChange_def example_getChildren numeral_3_eq_3)
  have h2: "previous (newChildChange None 1 0) \<notin> Some ` set [1, 2, 5, 4]"
    by (simp add: newChildChange_def)
  show ?thesis
    using h1 h2 example_consistent
      cascade_visits_in_index_order [OF h1 h2 example_consistent]
    by blast
qed

text \<open>
  Claim C8. The disconnecting pass \<open>connect(cell, false)\<close> returns on a cell whose walk
  exists, and after it \<open>getTerminal(true)\<close> and \<open>getTerminal(false)\<close> of every cell answer
  what they answered before, although every cell of the walk has left the incident edges
  of each of its terminals.
\<close>

theorem disconnect_keeps_terminal_fields:
  assumes "preorder n (getChildren m) c = Some xs"
  shows "\<exists>m'. connect n c False m = Some m' \<and>
           (\<forall>x. getTerminal m' x True = getTerminal m x True \<and>
                getTerminal m' x False = getTerminal m x False) \<and>
           (\<forall>x \<in> set xs. \<forall>t isSource.
              getTerminal m x isSource = Some t \<longrightarrow> x \<notin> getEdges m' t)"
proof -
  let ?m' = "fold (\<lambda>x. connect_terminals x False) xs m"
  have "connect n c False m = Some ?m'"
    using assms by (rule connect_preorder)
  moreover have "getTerminal ?m' = getTerminal m"
    by (rule cascade_frame)
  moreover have "\<forall>x \<in> set xs. \<forall>t isSource.
      getTerminal m x isSource = Some t \<longrightarrow> x \<notin> getEdges ?m' t"
  proof (intro ballI allI impI)
    fix x t isSource
    assume "x \<in> set xs" and "getTerminal m x isSource = Some t"
    then show "x \<notin> getEdges ?m' t"
      by (cases isSource) (simp_all add: cascade_edges_False)
  qed
  ultimately show ?thesis
    by simp
qed

theorem disconnect_keeps_terminal_fields_witness:
  "preorder 2 (getChildren example_model) 2 = Some [2, 5] \<and>
   (\<exists>m'. connect 2 2 False example_model = Some m' \<and>
      getTerminal m' 5 True = Some 3 \<and> getTerminal m' 5 False = Some 4 \<and>
      5 \<notin> getEdges m' 3 \<and> 5 \<notin> getEdges m' 4)"
proof -
  from disconnect_keeps_terminal_fields [OF example_preorder] obtain m'
    where m': "connect 2 2 False example_model = Some m'"
      and keep: "\<forall>x. getTerminal m' x True = getTerminal example_model x True \<and>
                getTerminal m' x False = getTerminal example_model x False"
      and sev: "\<forall>x \<in> set [2, 5]. \<forall>t isSource.
              getTerminal example_model x isSource = Some t \<longrightarrow> x \<notin> getEdges m' t"
    by blast
  have "getTerminal m' 5 True = Some 3" and "getTerminal m' 5 False = Some 4"
    using keep by (simp_all add: example_getTerminal)
  moreover have "5 \<notin> getEdges m' 3"
    using sev [rule_format, of 5 True 3] by (simp add: example_getTerminal)
  moreover have "5 \<notin> getEdges m' 4"
    using sev [rule_format, of 5 False 4] by (simp add: example_getTerminal)
  ultimately show ?thesis
    using example_preorder m' by simp
qed


text \<open>
  Claim C2, as amended. When a record detaches an attached cell (its new parent is
  \<open>null\<close>), \<open>execute\<close> returns, the cell has no parent, and the moved cell and every
  descendant have left the incident edges of each of their terminals, while their own
  terminal references are kept and not set to \<open>null\<close>. The second call of \<open>execute\<close> of the
  same record attaches the cell to its former parent again: every one of these cells is
  back among the incident edges of each of its terminals, and its terminal references are
  the ones it had.
\<close>

theorem detach_severs_and_reattach_restores:
  assumes "preorder n (getChildren m) (child r) = Some xs"
    and "tree_consistent m"
    and "previous r = None"
    and "getParent m (child r) \<noteq> None"
  shows "\<exists>r1 m1 r2 m2.
           execute n r m = Some (r1, m1) \<and> getParent m1 (child r) = None \<and>
           (\<forall>x \<in> set xs. \<forall>t isSource.
              getTerminal m x isSource = Some t \<longrightarrow>
              x \<notin> getEdges m1 t \<and> getTerminal m1 x isSource = Some t) \<and>
           execute n r1 m1 = Some (r2, m2) \<and>
           getParent m2 (child r) = getParent m (child r) \<and>
           (\<forall>x \<in> set xs. \<forall>t isSource.
              getTerminal m x isSource = Some t \<longrightarrow>
              x \<in> getEdges m2 t \<and> getTerminal m2 x isSource = Some t)"
proof -
  have new: "previous r \<notin> Some ` set xs"
    using assms(3) by simp
  from execute_twice [OF assms(1) new assms(2)] obtain r1 m1 r2 m2
    where e1: "execute n r m = Some (r1, m1)" and e2: "execute n r1 m1 = Some (r2, m2)"
      and par1: "getParent m1 = (getParent m)(child r := previous r)"
      and term1: "getTerminal m1 = getTerminal m"
      and edges1: "\<forall>t. getEdges m1 t =
              (if previous r = None
               then getEdges m t -
                 {x \<in> set xs. getTerminal m x True = Some t \<or> getTerminal m x False = Some t}
               else getEdges m t \<union>
                 {x \<in> set xs. getTerminal m x True = Some t \<or> getTerminal m x False = Some t})"
      and par2: "getParent m2 = getParent m"
      and term2: "getTerminal m2 = getTerminal m"
      and edges2: "\<forall>t. getEdges m2 t =
              (if getParent m (child r) = None
               then getEdges m1 t -
                 {x \<in> set xs. getTerminal m x True = Some t \<or> getTerminal m x False = Some t}
               else getEdges m1 t \<union>
                 {x \<in> set xs. getTerminal m x True = Some t \<or> getTerminal m x False = Some t})"
    by blast
  have sev: "x \<notin> getEdges m1 t \<and> getTerminal m1 x isSource = Some t"
    if "x \<in> set xs" and "getTerminal m x isSource = Some t" for x t isSource
    using that assms(3) edges1 by (cases isSource) (simp_all add: term1)
  have res: "x \<in> getEdges m2 t \<and> getTerminal m2 x isSource = Some t"
    if "x \<in> set xs" and "getTerminal m x isSource = Some t" for x t isSource
    using that assms(4) edges2 by (cases isSource) (simp_all add: term2)
  have "getParent m1 (child r) = None"
    by (simp add: par1 assms(3))
  moreover have "getParent m2 (child r) = getParent m (child r)"
    by (simp add: par2)
  ultimately show ?thesis
    using e1 e2 sev res by blast
qed

theorem detach_severs_and_reattach_restores_witness:
  "preorder 2 (getChildren example_model) (child (newChildChange None 2 0)) = Some [2, 5] \<and>
   tree_consistent example_model \<and> previous (newChildChange None 2 0) = None \<and>
   getParent example_model (child (newChildChange None 2 0)) \<noteq> None \<and>
   (\<exists>r1 m1 r2 m2.
      execute 2 (newChildChange None 2 0) example_model = Some (r1, m1) \<and>
      getParent m1 2 = None \<and>
      5 \<notin> getEdges m1 3 \<and> getTerminal m1 5 True = Some 3 \<and>
      5 \<notin> getEdges m1 4 \<and> getTerminal m1 5 False = Some 4 \<and>
      execute 2 r1 m1 = Some (r2, m2) \<and> getParent m2 2 = Some 1 \<and>
      5 \<in> getEdges m2 3 \<and> getTerminal m2 5 True = Some 3 \<and>
      5 \<in> getEdges m2 4 \<and> getTerminal m2 5 False = Some 4)"
proof -
  let ?r = "newChildChange None 2 0"
  have c: "child ?r = 2"
    by (simp add: newChildChange_def)
  have h1: "preorder 2 (getChildren example_model) (child ?r) = Some [2, 5]"
    using example_preorder by (simp add: c)
  have h3: "previous ?r = None"
    by (simp add: newChildChange_def)
  have h4: "getParent example_model (child ?r) \<noteq> None"
    by (simp add: c example_getParent)
  from detach_severs_and_reattach_restores [OF h1 example_consistent h3 h4]
  obtain r1 m1 r2 m2
    where e1: "execute 2 ?r example_model = Some (r1, m1)"
      and p1: "getParent m1 (child ?r) = None"
      and sev: "\<forall>x \<in> set [2, 5]. \<forall>t isSource.
              getTerminal example_model x isSource = Some t \<longrightarrow>
              x \<notin> getEdges m1 t \<and> getTerminal m1 x isSource = Some t"
      and e2: "execute 2 r1 m1 = Some (r2, m2)"
      and p2: "getParent m2 (child ?r) = getParent example_model (child ?r)"
      and res: "\<forall>x \<in> set [2, 5]. \<forall>t isSource.
              getTerminal example_model x isSource = Some t \<longrightarrow>
              x \<in> getEdges m2 t \<and> getTerminal m2 x isSource = Some t"
    by blast
  have s1: "5 \<notin> getEdges m1 3 \<and> getTerminal m1 5 True = Some 3"
    using sev [rule_format, of 5 True 3] by (simp add: example_getTerminal)
  have s2: "5 \<notin> getEdges m1 4 \<and> getTerminal m1 5 False = Some 4"
    using sev [rule_format, of 5 False 4] by (simp add: example_getTerminal)
  have t1: "5 \<in> getEdges m2 3 \<and> getTerminal m2 5 True = Some 3"
    using res [rule_format, of 5 True 3] by (simp add: example_getTerminal)
  have t2: "5 \<in> getEdges m2 4 \<and> getTerminal m2 5 False = Some 4"
    using res [rule_format, of 5 False 4] by (simp add: example_getTerminal)
  have "getParent m1 2 = None" and "getParent m2 2 = Some 1"
    using p1 p2 by (simp_all add: c example_getParent)
  then show ?thesis
    using h1 example_consistent h3 h4 e1 e2 s1 s2 t1 t2 by blast
qed

text \<open>
  The claim as it is written fails where it has the terminals set to \<open>null\<close>: after the
  record that detaches cell 2 of the example document has been executed, the edge 5 below
  it still has cell 3 as source and cell 4 as target.
\<close>

theorem detach_terminals_nulled_counterexample:
  "execute 2 (newChildChange None 2 0) example_model \<noteq> None \<and>
   getParent (snd (the (execute 2 (newChildChange None 2 0) example_model))) 2 = None \<and>
   getTerminal (snd (the (execute 2 (newChildChange None 2 0) example_model))) 5 True = Some 3 \<and>
   getTerminal (snd (the (execute 2 (newChildChange None 2 0) example_model))) 5 False = Some 4"
proof -
  let ?r = "newChildChange None 2 0"
  have c: "child ?r = 2" and p: "previous ?r = None"
    by (simp_all add: newChildChange_def)
  have h1: "preorder 2 (getChildren example_model) (child ?r) = Some [2, 5]"
    using example_preorder by (simp add: c)
  have h2: "previous ?r \<notin> Some ` set [2, 5]"
    by (simp add: p)
  from execute_twice [OF h1 h2 example_consistent] obtain r1 m1
    where e1: "execute 2 ?r example_model = Some (r1, m1)"
      and par1: "getParent m1 = (getParent example_model)(child ?r := previous ?r)"
      and term1: "getTerminal m1 = getTerminal example_model"
    by blast
  show ?thesis
    by (simp add: e1 par1 term1 c p example_getTerminal)
qed


section \<open>Folding\<close>

lemma setGeometry_fields:
  "getChildren (setGeometry c geo m) = getChildren m"
  "geometries (setGeometry c geo m) = geometries m"
  "nextGeometry (setGeometry c geo m) = nextGeometry m"
  "isCollapsed (setGeometry c geo m) = isCollapsed m"
  "getGeometry (setGeometry c geo m) = (getGeometry m)(c := Some geo)"
  "changes (setGeometry c geo m) =
     (if getGeometry m c = Some geo then changes m
      else changes m @ [GeometryChange c (getGeometry m c) (Some geo)])"
  by (auto simp: fun_eq_iff setGeometry_def getChildren_def isCollapsed_def getGeometry_def)

lemma setGeometry_other: "x \<noteq> c \<Longrightarrow> cells (setGeometry c geo m) x = cells m x"
  by (simp add: setGeometry_def)

lemma swapBounds_unfold:
  "getGeometry m c = Some old \<Longrightarrow>
   swapBounds g c w m =
     setGeometry c (nextGeometry m)
       (m\<lparr>nextGeometry := Suc (nextGeometry m),
          geometries := (geometries m)
            (nextGeometry m := swap (updateAlternateBounds g (snd (clone old m)) c (geometries m old) w))\<rparr>)"
  by (simp add: swapBounds_def clone_def Let_def)

lemma getGeometry_heap_update [simp]:
  "getGeometry (m\<lparr>nextGeometry := k, geometries := gs\<rparr>) = getGeometry m"
  by (simp add: fun_eq_iff getGeometry_def)

text \<open>
  Claim C6. For a cell without geometry \<open>swapBounds\<close> leaves the whole state as it is. For
  a cell whose geometry is an object \<open>old\<close> of the heap, its result is that of one call of
  \<open>setGeometry\<close> for the cell with a new geometry object, on a state that differs from the
  given one in that new object alone: the cells, the recorded changes and every object
  that existed are the same. So the object \<open>old\<close> is not edited, the geometry of the cell
  is the new object, which holds the swapped content of \<open>old\<close>, and exactly one Change
  Record is added.
\<close>

theorem swapBounds_single_setGeometry:
  "(getGeometry m c = None \<longrightarrow> swapBounds g c willCollapse m = m) \<and>
   (\<forall>old. getGeometry m c = Some old \<and> old < nextGeometry m \<longrightarrow>
      (\<exists>m'. swapBounds g c willCollapse m = setGeometry c (nextGeometry m) m' \<and>
            cells m' = cells m \<and> changes m' = changes m \<and> fired m' = fired m \<and>
            (\<forall>a < nextGeometry m. geometries m' a = geometries m a)) \<and>
      nextGeometry m \<noteq> old \<and>
      geometries (swapBounds g c willCollapse m) old = geometries m old \<and>
      getGeometry (swapBounds g c willCollapse m) c = Some (nextGeometry m) \<and>
      geometries (swapBounds g c willCollapse m) (nextGeometry m) =
        swap (updateAlternateBounds g (snd (clone old m)) c (geometries m old) willCollapse) \<and>
      changes (swapBounds g c willCollapse m) =
        changes m @ [GeometryChange c (Some old) (Some (nextGeometry m))])"
proof (intro conjI impI allI)
  assume "getGeometry m c = None"
  then show "swapBounds g c willCollapse m = m"
    by (simp add: swapBounds_def)
next
  fix old
  assume a: "getGeometry m c = Some old \<and> old < nextGeometry m"
  let ?m' = "m\<lparr>nextGeometry := Suc (nextGeometry m),
          geometries := (geometries m)
            (nextGeometry m := swap (updateAlternateBounds g (snd (clone old m)) c (geometries m old) willCollapse))\<rparr>"
  have eq: "swapBounds g c willCollapse m = setGeometry c (nextGeometry m) ?m'"
    using a by (simp add: swapBounds_unfold)
  show "\<exists>m'. swapBounds g c willCollapse m = setGeometry c (nextGeometry m) m' \<and>
            cells m' = cells m \<and> changes m' = changes m \<and> fired m' = fired m \<and>
            (\<forall>a < nextGeometry m. geometries m' a = geometries m a)"
    using eq by (intro exI [of _ ?m']) simp
  show "nextGeometry m \<noteq> old"
    using a by simp
  show "geometries (swapBounds g c willCollapse m) old = geometries m old"
    using a by (simp add: eq setGeometry_fields)
  show "getGeometry (swapBounds g c willCollapse m) c = Some (nextGeometry m)"
    by (simp add: eq setGeometry_fields)
  show "geometries (swapBounds g c willCollapse m) (nextGeometry m) =
        swap (updateAlternateBounds g (snd (clone old m)) c (geometries m old) willCollapse)"
    by (simp add: eq setGeometry_fields)
  show "changes (swapBounds g c willCollapse m) =
        changes m @ [GeometryChange c (Some old) (Some (nextGeometry m))]"
    using a by (simp add: eq setGeometry_fields)
qed

theorem swapBounds_single_setGeometry_witness:
  "getGeometry example_model 4 = None \<and> swapBounds example_graph 4 True example_model = example_model \<and>
   getGeometry example_model 1 = Some 0 \<and> 0 < nextGeometry example_model \<and>
   geometries (swapBounds example_graph 1 True example_model) 0 = geometries example_model 0 \<and>
   getGeometry (swapBounds example_graph 1 True example_model) 1 = Some 2 \<and>
   changes (swapBounds example_graph 1 True example_model) = [GeometryChange 1 (Some 0) (Some 2)]"
proof -
  have h0: "getGeometry example_model 4 = None"
    by (simp add: getGeometry_def example_model_def emptyCell_def)
  have h1: "getGeometry example_model 1 = Some 0 \<and> 0 < nextGeometry example_model"
    by (simp add: getGeometry_def example_model_def emptyCell_def)
  have n: "nextGeometry example_model = 2" and c: "changes example_model = []"
    by (simp_all add: example_model_def)
  from swapBounds_single_setGeometry [of example_model 4 example_graph True] h0
  have "swapBounds example_graph 4 True example_model = example_model"
    by blast
  moreover from swapBounds_single_setGeometry [of example_model 1 example_graph True] h1
  have "geometries (swapBounds example_graph 1 True example_model) 0 = geometries example_model 0"
    and "getGeometry (swapBounds example_graph 1 True example_model) 1 = Some 2"
    and "changes (swapBounds example_graph 1 True example_model) = [GeometryChange 1 (Some 0) (Some 2)]"
    unfolding n c by auto
  ultimately show ?thesis
    using h0 h1 by simp
qed



























end
